theory Spec2Isabelle
  imports Complex_Main "HOL-Library.Word"
begin

section \<open>The debugger stream decoder (test-debugger.js)\<close>

text \<open>
  The script keeps one module-level \<^verbatim>\<open>buffer\<close> and, on every \<^verbatim>\<open>data\<close> event of the
  socket, appends the chunk, prints the printable strings found in the first 4096 bytes,
  prints the length-prefixed strings found at the first 200 offsets, and finally cuts the
  buffer to its last 4096 bytes once it holds more than 8192.

  A Node \<^verbatim>\<open>Buffer\<close> is a list of bytes; a JavaScript string is a list of UTF-16 code units,
  written here as natural numbers below 65536.
\<close>

type_synonym byte = "8 word"
type_synonym js_string = "nat list"

subsection \<open>Buffer.toString('utf8', start, end)\<close>

text \<open>
  Node decodes UTF-8 the way the WHATWG decoder does: a well-formed sequence gives its code
  point, every maximal ill-formed part gives one U+FFFD, and the byte that ended an
  ill-formed part is read again as the start of the next sequence. A code point above
  U+FFFF is stored as a surrogate pair.

  \<open>utf8_step\<close> decodes the sequence at the head of a non-empty input and returns the
  code units it stands for and the input that is left.
\<close>

definition replacement :: nat where
  "replacement = 0xFFFD"

definition continuation :: "nat \<Rightarrow> nat \<Rightarrow> byte \<Rightarrow> bool" where
  "continuation lower upper c \<longleftrightarrow> lower \<le> unat c \<and> unat c \<le> upper"

definition surrogates :: "nat \<Rightarrow> js_string" where
  "surrogates cp = [0xD800 + (cp - 0x10000) div 0x400, 0xDC00 + (cp - 0x10000) mod 0x400]"

definition two_bytes :: "nat \<Rightarrow> byte list \<Rightarrow> js_string \<times> byte list" where
  \<comment> \<open>after a lead byte \<open>n\<close> in C2..DF\<close>
  "two_bytes n bs =
     (case bs of
        [] \<Rightarrow> ([replacement], [])
      | c # cs \<Rightarrow>
          if continuation 0x80 0xBF c
          then ([(n - 0xC0) * 0x40 + (unat c - 0x80)], cs)
          else ([replacement], bs))"

definition three_bytes :: "nat \<Rightarrow> byte list \<Rightarrow> js_string \<times> byte list" where
  \<comment> \<open>after a lead byte \<open>n\<close> in E0..EF\<close>
  "three_bytes n bs =
     (case bs of
        [] \<Rightarrow> ([replacement], [])
      | c # cs \<Rightarrow>
          if continuation (if n = 0xE0 then 0xA0 else 0x80) (if n = 0xED then 0x9F else 0xBF) c
          then
            (case cs of
               [] \<Rightarrow> ([replacement], [])
             | d # ds \<Rightarrow>
                 if continuation 0x80 0xBF d
                 then ([(n - 0xE0) * 0x1000 + (unat c - 0x80) * 0x40 + (unat d - 0x80)], ds)
                 else ([replacement], cs))
          else ([replacement], bs))"

definition four_bytes :: "nat \<Rightarrow> byte list \<Rightarrow> js_string \<times> byte list" where
  \<comment> \<open>after a lead byte \<open>n\<close> in F0..F4\<close>
  "four_bytes n bs =
     (case bs of
        [] \<Rightarrow> ([replacement], [])
      | c # cs \<Rightarrow>
          if continuation (if n = 0xF0 then 0x90 else 0x80) (if n = 0xF4 then 0x8F else 0xBF) c
          then
            (case cs of
               [] \<Rightarrow> ([replacement], [])
             | d # ds \<Rightarrow>
                 if continuation 0x80 0xBF d
                 then
                   (case ds of
                      [] \<Rightarrow> ([replacement], [])
                    | e # es \<Rightarrow>
                        if continuation 0x80 0xBF e
                        then (surrogates ((n - 0xF0) * 0x40000 + (unat c - 0x80) * 0x1000
                                + (unat d - 0x80) * 0x40 + (unat e - 0x80)), es)
                        else ([replacement], ds))
                 else ([replacement], cs))
          else ([replacement], bs))"

fun utf8_step :: "byte list \<Rightarrow> js_string \<times> byte list" where
  "utf8_step [] = ([], [])"
| "utf8_step (b # bs) =
    (let n = unat b in
     if n < 0x80 then ([n], bs)
     else if 0xC2 \<le> n \<and> n \<le> 0xDF then two_bytes n bs
     else if 0xE0 \<le> n \<and> n \<le> 0xEF then three_bytes n bs
     else if 0xF0 \<le> n \<and> n \<le> 0xF4 then four_bytes n bs
     else ([replacement], bs))"

lemma two_bytes_shorter: "length (snd (two_bytes n bs)) \<le> length bs"
  by (simp add: two_bytes_def split: list.splits)

lemma three_bytes_shorter: "length (snd (three_bytes n bs)) \<le> length bs"
  by (simp add: three_bytes_def split: list.splits)

lemma four_bytes_shorter: "length (snd (four_bytes n bs)) \<le> length bs"
  by (simp add: four_bytes_def split: list.splits)

lemma utf8_step_shorter: "bs \<noteq> [] \<Longrightarrow> length (snd (utf8_step bs)) < length bs"
  by (cases bs)
    (simp_all add: Let_def less_Suc_eq_le two_bytes_shorter three_bytes_shorter four_bytes_shorter)

function utf8_decode :: "byte list \<Rightarrow> js_string" where
  "utf8_decode bs =
     (if bs = [] then []
      else fst (utf8_step bs) @ utf8_decode (snd (utf8_step bs)))"
  by pat_completeness auto
termination
  by (relation "measure length") (auto simp: utf8_step_shorter)

declare utf8_decode.simps [simp del]

definition toString_utf8 :: "byte list \<Rightarrow> nat \<Rightarrow> nat \<Rightarrow> js_string" where
  \<comment> \<open>\<^verbatim>\<open>buffer.toString('utf8', start, end)\<close>: the range is clamped to the buffer, never an error\<close>
  "toString_utf8 buffer start end = utf8_decode (take (end - start) (drop start buffer))"

subsection \<open>The regular expressions\<close>

definition letter :: "nat \<Rightarrow> bool" where
  \<comment> \<open>\<^verbatim>\<open>[a-zA-Z]\<close>\<close>
  "letter u \<longleftrightarrow> (97 \<le> u \<and> u \<le> 122) \<or> (65 \<le> u \<and> u \<le> 90)"

definition printable :: "nat \<Rightarrow> bool" where
  \<comment> \<open>\<^verbatim>\<open>[a-zA-Z0-9_:.,!? ]\<close>\<close>
  "printable u \<longleftrightarrow> letter u \<or> (48 \<le> u \<and> u \<le> 57) \<or> u \<in> {95, 58, 46, 44, 33, 63, 32}"

text \<open>
  \<^verbatim>\<open>fullText.match(/[a-zA-Z0-9_:.,!? ]{3,}/g)\<close>: at each position the greedy quantifier takes
  every character of the class; with three or more the match is recorded and the search
  goes on behind it, with fewer the search moves one character on.
\<close>

lemma match_shorter: "t \<noteq> [] \<Longrightarrow> 3 \<le> n \<Longrightarrow> length t - n < length t"
  by (cases t) auto

function match_all :: "js_string \<Rightarrow> js_string list" where
  "match_all text =
     (if text = [] then []
      else let run = takeWhile printable text in
        if 3 \<le> length run then run # match_all (drop (length run) text)
        else match_all (tl text))"
  by pat_completeness auto
termination
  by (relation "measure length") (auto simp: match_shorter)

declare match_all.simps [simp del]

definition test_letter :: "js_string \<Rightarrow> bool" where
  \<comment> \<open>\<^verbatim>\<open>/[a-zA-Z]/.test(str)\<close>\<close>
  "test_letter str \<longleftrightarrow> list_ex letter str"

subsection \<open>The data handler\<close>

text \<open>What the handler prints for one string it found, by the pass that found it.\<close>

datatype decoded =
    Extracted nat js_string  \<comment> \<open>\<^verbatim>\<open>[i] "str"\<close>: the i-th printable run\<close>
  | Length_prefixed nat nat js_string  \<comment> \<open>\<^verbatim>\<open>At offset o: [len=n] "str"\<close>\<close>

datatype error = RangeError | TypeError

definition readUInt32LE :: "byte list \<Rightarrow> nat \<Rightarrow> error + nat" where
  \<comment> \<open>Node throws \<^verbatim>\<open>ERR_OUT_OF_RANGE\<close> unless four bytes are there\<close>
  "readUInt32LE buffer offset =
     (if offset + 4 \<le> length buffer
      then Inr (unat (buffer ! offset) + unat (buffer ! (offset + 1)) * 2 ^ 8
             + unat (buffer ! (offset + 2)) * 2 ^ 16 + unat (buffer ! (offset + 3)) * 2 ^ 24)
      else Inl RangeError)"

definition extract_strings :: "byte list \<Rightarrow> decoded list" where
  "extract_strings buffer =
     (let fullText = toString_utf8 buffer 0 (min (length buffer) 4096);
          strings = match_all fullText
      in map (\<lambda>(i, str). Extracted i str)
           (filter (\<lambda>(i, str). 2 < length str) (zip [0 ..< length strings] strings)))"

definition frame_at :: "byte list \<Rightarrow> nat \<Rightarrow> nat \<Rightarrow> decoded list" where
  \<comment> \<open>the body of the scan loop below the read\<close>
  "frame_at buffer offset len =
     (if 0 < len \<and> len < 1000 \<and> offset + 4 + len \<le> length buffer then
        (let str = toString_utf8 buffer (offset + 4) (offset + 4 + len) in
         if str \<noteq> [] \<and> test_letter str then [Length_prefixed offset len str] else [])
      else [])"

function scan_from :: "byte list \<Rightarrow> nat \<Rightarrow> error + decoded list" where
  "scan_from buffer offset =
     (if int offset < min (int (length buffer) - 4) 200 then
        (case readUInt32LE buffer offset of
           Inl e \<Rightarrow> Inl e
         | Inr len \<Rightarrow>
             (case scan_from buffer (offset + 1) of
                Inl e \<Rightarrow> Inl e
              | Inr rest \<Rightarrow> Inr (frame_at buffer offset len @ rest)))
      else Inr [])"
  by pat_completeness auto
termination
  by (relation "measure (\<lambda>(buffer, offset). 200 - offset)") auto

declare scan_from.simps [simp del]

definition length_prefixed_scan :: "byte list \<Rightarrow> error + decoded list" where
  "length_prefixed_scan buffer = scan_from buffer 0"

definition trim :: "byte list \<Rightarrow> byte list" where
  \<comment> \<open>\<^verbatim>\<open>if (buffer.length > 8192) buffer = buffer.subarray(-4096)\<close>\<close>
  "trim buffer = (if 8192 < length buffer then drop (length buffer - 4096) buffer else buffer)"

definition on_data :: "byte list \<Rightarrow> byte list \<Rightarrow> error + (decoded list \<times> byte list)" where
  "on_data buffer0 data =
     (let buffer = buffer0 @ data in
      case length_prefixed_scan buffer of
        Inl e \<Rightarrow> Inl e
      | Inr framed \<Rightarrow> Inr (extract_strings buffer @ framed, trim buffer))"

text \<open>
  A run of the script: the buffer starts empty (\<^verbatim>\<open>Buffer.alloc(0)\<close>) and the chunks arrive
  one data event after the other. The result is everything printed and the final buffer.
\<close>

fun feed :: "byte list \<Rightarrow> byte list list \<Rightarrow> error + (decoded list \<times> byte list)" where
  "feed buffer [] = Inr ([], buffer)"
| "feed buffer (data # chunks) =
     (case on_data buffer data of
        Inl e \<Rightarrow> Inl e
      | Inr (recs, buffer') \<Rightarrow>
          (case feed buffer' chunks of
             Inl e \<Rightarrow> Inl e
           | Inr (more, final) \<Rightarrow> Inr (recs @ more, final)))"

definition run :: "byte list list \<Rightarrow> error + (decoded list \<times> byte list)" where
  "run chunks = feed [] chunks"

subsection \<open>What the specification calls a maximal run\<close>

text \<open>
  Following the specification's words, not the script: the \<open>n\<close> bytes from position \<open>i\<close>
  are all in the printable set, and the run can be extended on neither side.
\<close>

definition printable_byte :: "byte \<Rightarrow> bool" where
  "printable_byte b \<longleftrightarrow> printable (unat b)"

definition maximal_run :: "byte list \<Rightarrow> nat \<Rightarrow> nat \<Rightarrow> bool" where
  "maximal_run bs i n \<longleftrightarrow>
     i + n \<le> length bs \<and>
     list_all printable_byte (take n (drop i bs)) \<and>
     (i = 0 \<or> \<not> printable_byte (bs ! (i - 1))) \<and>
     (i + n = length bs \<or> \<not> printable_byte (bs ! (i + n)))"

definition printed_set :: "error + (decoded list \<times> byte list) \<Rightarrow> decoded set" where
  \<comment> \<open>the set of strings a run printed\<close>
  "printed_set r = (case r of Inl _ \<Rightarrow> {} | Inr (recs, _) \<Rightarrow> set recs)"

section \<open>The in-game bridge (the GDScript autoload)\<close>

text \<open>
  The script answers by printing lines to the game's standard output. Every line it prints
  is the response prefix followed either by a string literal or by \<^verbatim>\<open>JSON.stringify\<close> of a
  dictionary; a line is kept as this pair, so that the dictionary can be read back from it.
  Without indentation \<^verbatim>\<open>JSON.stringify\<close> writes no line break, and each \<^verbatim>\<open>print\<close> call
  writes one line.

  Values are Godot variants. Numbers are kept with their integral value: \<^verbatim>\<open>JSON.parse\<close>
  yields them as floats and the call of a function with \<^verbatim>\<open>int\<close> parameters converts them
  back; a \<^verbatim>\<open>Vector2\<close> is kept as the two numbers it was built from.
\<close>

datatype variant =
    Nil
  | VBool bool
  | VInt int
  | VString string
  | VArray "variant list"
  | VDictionary "(string \<times> variant) list"

datatype payload = Literal string | Stringify variant

type_synonym line = "string \<times> payload"

definition command_prefix :: string where
  "command_prefix = ''MCP_COMMAND:''"

definition response_prefix :: string where
  "response_prefix = ''MCP_RESPONSE:''"

definition MOUSE_BUTTON_LEFT :: int where
  \<comment> \<open>the engine's constant\<close>
  "MOUSE_BUTTON_LEFT = 1"

subsection \<open>Marshalls.raw_to_base64\<close>

definition base64_alphabet :: string where
  "base64_alphabet = ''ABCDEFGHIJKLMNOPQRSTUVWXYZabcdefghijklmnopqrstuvwxyz0123456789+/''"

definition sextet :: "nat \<Rightarrow> char" where
  "sextet n = base64_alphabet ! (n mod 64)"

fun raw_to_base64 :: "byte list \<Rightarrow> string" where
  "raw_to_base64 [] = []"
| "raw_to_base64 [a] =
     [sextet (unat a div 4), sextet (unat a mod 4 * 16), CHR ''='', CHR ''='']"
| "raw_to_base64 [a, b] =
     [sextet (unat a div 4), sextet (unat a mod 4 * 16 + unat b div 16),
      sextet (unat b mod 16 * 4), CHR ''='']"
| "raw_to_base64 (a # b # c # rest) =
     [sextet (unat a div 4), sextet (unat a mod 4 * 16 + unat b div 16),
      sextet (unat b mod 16 * 4 + unat c div 64), sextet (unat c mod 64)]
     @ raw_to_base64 rest"

subsection \<open>The engine the script runs in\<close>

text \<open>
  What the script asks the engine for: the image of the root viewport, where both the
  viewport and its image may be \<^verbatim>\<open>null\<close>, with the two encodings of the image, and the
  JSON parser, which either fails or yields a variant.
\<close>

record image =
  get_width :: int
  get_height :: int
  save_jpg_to_buffer :: "byte list"  \<comment> \<open>at quality 0.9\<close>
  save_png_to_buffer :: "byte list"

record engine =
  viewport :: "image option option"
  json_parse :: "string \<Rightarrow> variant option"

record mouse_button_event =
  button_index :: int
  pressed :: bool
  position :: "int \<times> int"

subsection \<open>capture\_screenshot\<close>

definition screenshot_error :: "string \<Rightarrow> variant" where
  "screenshot_error message =
     VDictionary [(''type'', VString ''screenshot''), (''error'', VString message)]"

definition capture_screenshot :: "engine \<Rightarrow> string \<Rightarrow> line list \<times> variant" where
  "capture_screenshot e format =
     (case viewport e of
        None \<Rightarrow>
          (let error = screenshot_error ''Failed to get viewport''
           in ([(response_prefix, Stringify error)], error))
      | Some None \<Rightarrow>
          (let error = screenshot_error ''Failed to get image from viewport''
           in ([(response_prefix, Stringify error)], error))
      | Some (Some img) \<Rightarrow>
          (let buffer = (if format = ''jpg'' \<or> format = ''jpeg''
                         then save_jpg_to_buffer img else save_png_to_buffer img)
           in if buffer = [] then
                (let error = screenshot_error ''Failed to encode image''
                 in ([(response_prefix, Stringify error)], error))
              else
                (let base64 = raw_to_base64 buffer;
                     result = VDictionary
                       [(''type'', VString ''screenshot''),
                        (''success'', VBool True),
                        (''data'', VString base64),
                        (''size'', VInt (int (length buffer))),
                        (''width'', VInt (get_width img)),
                        (''height'', VInt (get_height img)),
                        (''format'', VString format)]
                 in ([(response_prefix, Stringify result)], result))))"

subsection \<open>simulate\_click\<close>

text \<open>
  The function is a coroutine: it feeds the press event to the input system, waits a tenth
  of a second, feeds the release event and then prints. The model runs it to its end and
  returns the events in the order they were fed, each as it was when fed.
\<close>

definition simulate_click ::
  "int \<Rightarrow> int \<Rightarrow> int \<Rightarrow> mouse_button_event list \<times> line list \<times> variant" where
  "simulate_click x y button =
     (let event = \<lparr>button_index = button, pressed = True, position = (x, y)\<rparr>;
          released = event\<lparr>pressed := False\<rparr>;
          result = VDictionary
            [(''type'', VString ''click''),
             (''success'', VBool True),
             (''x'', VInt x),
             (''y'', VInt y),
             (''button'', VInt button)]
      in ([event, released], [(response_prefix, Stringify result)], result))"

subsection \<open>\_on\_command\_received\<close>

text \<open>
  GDScript has no exceptions: a runtime error ends the running function on the spot and is
  reported by the engine. The two that the dispatcher can meet are a call of \<^verbatim>\<open>get\<close> on a
  value that is not a dictionary and an argument that does not convert to the declared
  type of the parameter.
\<close>

datatype script_error = Invalid_call | Invalid_argument

definition get :: "variant \<Rightarrow> string \<Rightarrow> variant \<Rightarrow> script_error + variant" where
  \<comment> \<open>\<^verbatim>\<open>command.get(key, default)\<close>\<close>
  "get v key default_value =
     (case v of
        VDictionary entries \<Rightarrow>
          Inr (case map_of entries key of None \<Rightarrow> default_value | Some x \<Rightarrow> x)
      | _ \<Rightarrow> Inl Invalid_call)"

definition to_String :: "variant \<Rightarrow> script_error + string" where
  \<comment> \<open>an argument for a parameter declared \<^verbatim>\<open>String\<close>\<close>
  "to_String v = (case v of VString s \<Rightarrow> Inr s | _ \<Rightarrow> Inl Invalid_argument)"

definition to_int :: "variant \<Rightarrow> script_error + int" where
  \<comment> \<open>an argument for a parameter declared \<^verbatim>\<open>int\<close>\<close>
  "to_int v =
     (case v of
        VInt n \<Rightarrow> Inr n
      | VBool b \<Rightarrow> Inr (if b then 1 else 0)
      | _ \<Rightarrow> Inl Invalid_argument)"

record outcome =
  printed :: "line list"
  input_events :: "mouse_button_event list"

definition invalid_json :: line where
  \<open>invalid_json =
     (response_prefix, Literal ''{"type":"error","message":"Invalid JSON command"}'')\<close>

definition unknown_action :: line where
  \<open>unknown_action =
     (response_prefix, Literal ''{"type":"error","message":"Unknown command action"}'')\<close>

definition on_command_received :: "engine \<Rightarrow> string \<Rightarrow> script_error + outcome" where
  "on_command_received e command_str =
     (case json_parse e command_str of
        None \<Rightarrow> Inr \<lparr>printed = [invalid_json], input_events = []\<rparr>
      | Some command \<Rightarrow>
          (case get command ''action'' Nil of
             Inl err \<Rightarrow> Inl err
           | Inr action \<Rightarrow>
               if action = VString ''screenshot'' then
                 (case get command ''format'' (VString ''png'') of
                    Inl err \<Rightarrow> Inl err
                  | Inr format \<Rightarrow>
                      (case to_String format of
                         Inl err \<Rightarrow> Inl err
                       | Inr f \<Rightarrow>
                           Inr \<lparr>printed = fst (capture_screenshot e f), input_events = []\<rparr>))
               else if action = VString ''click'' then
                 (case (get command ''x'' (VInt 0), get command ''y'' (VInt 0),
                        get command ''button'' (VInt MOUSE_BUTTON_LEFT)) of
                    (Inr x, Inr y, Inr button) \<Rightarrow>
                      (case (to_int x, to_int y, to_int button) of
                         (Inr xi, Inr yi, Inr bi) \<Rightarrow>
                           (let (events, lines, result) = simulate_click xi yi bi
                            in Inr \<lparr>printed = lines, input_events = events\<rparr>)
                       | _ \<Rightarrow> Inl Invalid_argument)
                  | _ \<Rightarrow> Inl Invalid_call)
               else Inr \<lparr>printed = [unknown_action], input_events = []\<rparr>))"

subsection \<open>Reading a response, and an engine to run the script in\<close>

definition response_field :: "line \<Rightarrow> string \<Rightarrow> variant option" where
  \<comment> \<open>a field of the JSON payload of a printed line\<close>
  "response_field l key =
     (case snd l of
        Stringify (VDictionary entries) \<Rightarrow> map_of entries key
      | _ \<Rightarrow> None)"

definition absent_or_string :: "variant option \<Rightarrow> bool" where
  "absent_or_string v = (case v of None \<Rightarrow> True | Some (VString _) \<Rightarrow> True | _ \<Rightarrow> False)"

definition absent_or_int :: "variant option \<Rightarrow> bool" where
  "absent_or_int v = (case v of None \<Rightarrow> True | Some (VInt _) \<Rightarrow> True | _ \<Rightarrow> False)"

definition number_command :: string where
  "number_command = ''42''"

definition broken_command :: string where
  \<open>broken_command = ''{"action":''\<close>

definition quit_command :: string where
  \<open>quit_command = ''{"action":"quit"}''\<close>

definition screenshot_command :: string where
  \<open>screenshot_command = ''{"action":"screenshot"}''\<close>

definition bmp_command :: string where
  \<open>bmp_command = ''{"action":"screenshot","format":"bmp"}''\<close>

definition click_command :: string where
  \<open>click_command = ''{"action":"click","x":10,"y":20}''\<close>

definition example_image :: image where
  "example_image =
     \<lparr>get_width = 640, get_height = 480,
      save_jpg_to_buffer = [0xFF, 0xD8, 0xFF],
      save_png_to_buffer = [0x89, 0x50, 0x4E, 0x47]\<rparr>"

definition example_engine :: engine where
  \<comment> \<open>a viewport of 640 by 480, and the parser on the six commands above\<close>
  "example_engine =
     \<lparr>viewport = Some (Some example_image),
      json_parse = map_of
        [(number_command, VInt 42),
         (quit_command, VDictionary [(''action'', VString ''quit'')]),
         (screenshot_command, VDictionary [(''action'', VString ''screenshot'')]),
         (bmp_command,
            VDictionary [(''action'', VString ''screenshot''), (''format'', VString ''bmp'')]),
         (click_command,
            VDictionary [(''action'', VString ''click''), (''x'', VInt 10), (''y'', VInt 20)])]\<rparr>"

section \<open>The client configuration writers (scripts/init.js)\<close>

















subsection \<open>Reading a configuration\<close>







subsection \<open>Configurations to run the writers on\<close>





section \<open>Properties of the stream decoder\<close>

lemma utf8_decode_Nil [simp]: "utf8_decode [] = []"
  by (simp add: utf8_decode.simps)

lemma utf8_decode_ascii: "unat b < 0x80 \<Longrightarrow> utf8_decode (b # bs) = unat b # utf8_decode bs"
  by (subst utf8_decode.simps) simp

lemma printable_ascii: "printable u \<Longrightarrow> u < 0x80"
  by (auto simp: printable_def letter_def)

lemma two_bytes_high:
  assumes "0xC2 \<le> n"
  shows "fst (two_bytes n bs) \<noteq> []" and "\<forall>u \<in> set (fst (two_bytes n bs)). 0x80 \<le> u"
  using assms by (auto simp: two_bytes_def replacement_def continuation_def split: list.splits)

lemma three_bytes_high:
  assumes "0xE0 \<le> n"
  shows "fst (three_bytes n bs) \<noteq> []" and "\<forall>u \<in> set (fst (three_bytes n bs)). 0x80 \<le> u"
  using assms by (auto simp: three_bytes_def replacement_def continuation_def split: list.splits)

lemma four_bytes_high:
  shows "fst (four_bytes n bs) \<noteq> []" and "\<forall>u \<in> set (fst (four_bytes n bs)). 0x80 \<le> u"
  by (auto simp: four_bytes_def replacement_def surrogates_def split: list.splits)

lemma utf8_step_high:
  assumes "\<not> unat b < 0x80"
  shows "fst (utf8_step (b # bs)) \<noteq> []" and "\<forall>u \<in> set (fst (utf8_step (b # bs))). 0x80 \<le> u"
  using assms two_bytes_high [of "unat b" bs] three_bytes_high [of "unat b" bs]
    four_bytes_high [of "unat b" bs]
  by (auto simp: Let_def replacement_def)

lemma two_bytes_last:
  "snd (two_bytes n bs) = [] \<or> bs \<noteq> [] \<and> last (snd (two_bytes n bs)) = last bs"
  by (simp add: two_bytes_def split: list.splits)

lemma three_bytes_last:
  "snd (three_bytes n bs) = [] \<or> bs \<noteq> [] \<and> last (snd (three_bytes n bs)) = last bs"
  by (simp add: three_bytes_def split: list.splits)

lemma four_bytes_last:
  "snd (four_bytes n bs) = [] \<or> bs \<noteq> [] \<and> last (snd (four_bytes n bs)) = last bs"
  by (simp add: four_bytes_def split: list.splits)

lemma utf8_step_last:
  "snd (utf8_step (b # bs)) = [] \<or> last (snd (utf8_step (b # bs))) = last (b # bs)"
  using two_bytes_last [of "unat b" bs] three_bytes_last [of "unat b" bs]
    four_bytes_last [of "unat b" bs]
  by (auto simp: Let_def)

lemma no_continuation: "unat y < 0x80 \<Longrightarrow> 0x80 \<le> l \<Longrightarrow> \<not> continuation l u y"
  by (simp add: continuation_def)

lemma two_bytes_append:
  "ys = [] \<or> unat (hd ys) < 0x80 \<Longrightarrow>
     two_bytes n (bs @ ys) = (fst (two_bytes n bs), snd (two_bytes n bs) @ ys)"
  by (cases ys) (auto simp: two_bytes_def no_continuation split: list.splits)

lemma three_bytes_append:
  "ys = [] \<or> unat (hd ys) < 0x80 \<Longrightarrow>
     three_bytes n (bs @ ys) = (fst (three_bytes n bs), snd (three_bytes n bs) @ ys)"
  by (cases ys) (auto simp: three_bytes_def no_continuation split: list.splits)

lemma four_bytes_append:
  "ys = [] \<or> unat (hd ys) < 0x80 \<Longrightarrow>
     four_bytes n (bs @ ys) = (fst (four_bytes n bs), snd (four_bytes n bs) @ ys)"
  by (cases ys) (auto simp: four_bytes_def no_continuation split: list.splits)

lemma utf8_step_append:
  assumes "xs \<noteq> []" and "ys = [] \<or> unat (hd ys) < 0x80"
  shows "utf8_step (xs @ ys) = (fst (utf8_step xs), snd (utf8_step xs) @ ys)"
proof -
  from assms(1) obtain b bs where xs: "xs = b # bs" by (cases xs) auto
  show ?thesis
    unfolding xs
    by (simp add: Let_def two_bytes_append [OF assms(2)] three_bytes_append [OF assms(2)]
        four_bytes_append [OF assms(2)])
qed

lemma utf8_decode_append:
  "ys = [] \<or> unat (hd ys) < 0x80 \<Longrightarrow> utf8_decode (xs @ ys) = utf8_decode xs @ utf8_decode ys"
proof (induction xs rule: utf8_decode.induct)
  case (1 bs)
  show ?case
  proof (cases "bs = []")
    case True
    then show ?thesis by simp
  next
    case False
    have "utf8_decode (bs @ ys) = fst (utf8_step bs) @ utf8_decode (snd (utf8_step bs) @ ys)"
      using False utf8_step_append [OF False "1.prems"]
      by (subst utf8_decode.simps) simp
    also have "\<dots> = fst (utf8_step bs) @ utf8_decode (snd (utf8_step bs)) @ utf8_decode ys"
      using "1.IH" [OF False "1.prems"] by simp
    also have "\<dots> = utf8_decode bs @ utf8_decode ys"
      using False by (subst (2) utf8_decode.simps) simp
    finally show ?thesis .
  qed
qed

lemma utf8_decode_ascii_run:
  "\<forall>b \<in> set r. unat b < 0x80 \<Longrightarrow> utf8_decode (r @ post) = map unat r @ utf8_decode post"
  by (induction r) (simp_all add: utf8_decode_ascii)

lemma utf8_decode_hd:
  assumes "post \<noteq> []" and "\<not> printable (unat (hd post))"
  shows "utf8_decode post \<noteq> [] \<and> \<not> printable (hd (utf8_decode post))"
proof -
  from assms(1) obtain b bs where post: "post = b # bs" by (cases post) auto
  show ?thesis
  proof (cases "unat b < 0x80")
    case True
    with assms(2) show ?thesis by (simp add: post utf8_decode_ascii)
  next
    case False
    from utf8_step_high [OF False, of bs]
    have "fst (utf8_step post) \<noteq> []" and "0x80 \<le> hd (fst (utf8_step post))"
      by (simp_all add: post del: utf8_step.simps)
    moreover have "utf8_decode post = fst (utf8_step post) @ utf8_decode (snd (utf8_step post))"
      using assms(1) by (subst utf8_decode.simps) simp
    ultimately show ?thesis
      using printable_ascii [of "hd (utf8_decode post)"] by auto
  qed
qed

lemma utf8_decode_last_high:
  "bs \<noteq> [] \<Longrightarrow> \<not> unat (last bs) < 0x80 \<Longrightarrow>
     utf8_decode bs \<noteq> [] \<and> 0x80 \<le> last (utf8_decode bs)"
proof (induction bs rule: utf8_decode.induct)
  case (1 bs)
  from "1.prems"(1) obtain b bs' where bs: "bs = b # bs'" by (cases bs) auto
  have unfold: "utf8_decode bs = fst (utf8_step bs) @ utf8_decode (snd (utf8_step bs))"
    using "1.prems"(1) by (subst utf8_decode.simps) simp
  show ?case
  proof (cases "snd (utf8_step bs) = []")
    case True
    have "\<not> unat b < 0x80"
    proof
      assume "unat b < 0x80"
      with True have "bs' = []" by (simp add: bs)
      with "1.prems"(2) \<open>unat b < 0x80\<close> show False by (simp add: bs)
    qed
    moreover from unfold True have "utf8_decode bs = fst (utf8_step bs)"
      by simp
    ultimately show ?thesis
      using utf8_step_high [of b bs'] by (simp add: bs del: utf8_step.simps)
  next
    case False
    then have "last (snd (utf8_step bs)) = last bs"
      using utf8_step_last [of b bs'] by (simp add: bs del: utf8_step.simps)
    with "1.IH" [OF "1.prems"(1) False] "1.prems"(2)
    show ?thesis by (simp add: unfold)
  qed
qed

lemma utf8_decode_last:
  assumes "pre \<noteq> []" and "\<not> printable (unat (last pre))"
  shows "utf8_decode pre \<noteq> [] \<and> \<not> printable (last (utf8_decode pre))"
proof (cases "unat (last pre) < 0x80")
  case True
  have "utf8_decode (butlast pre @ [last pre]) = utf8_decode (butlast pre) @ utf8_decode [last pre]"
    using True by (intro utf8_decode_append) simp
  with assms True show ?thesis
    by (simp add: utf8_decode_ascii)
next
  case False
  from utf8_decode_last_high [OF assms(1) False] show ?thesis
    using printable_ascii [of "last (utf8_decode pre)"] by auto
qed

lemma takeWhile_shorter: "x \<in> set xs \<Longrightarrow> \<not> P x \<Longrightarrow> length (takeWhile P xs) < length xs"
  by (induction xs) auto

lemma match_all_run:
  assumes "\<forall>u \<in> set r. printable u" and "3 \<le> length r"
    and "pre = [] \<or> \<not> printable (last pre)" and "post = [] \<or> \<not> printable (hd post)"
  shows "r \<in> set (match_all (pre @ r @ post))"
  using assms(3)
proof (induction "length pre" arbitrary: pre rule: less_induct)
  case less
  show ?case
  proof (cases "pre = []")
    case True
    have "takeWhile printable post = []"
      using assms(4) by (cases post) auto
    then have "takeWhile printable (r @ post) = r"
      using assms(1) by simp
    moreover have "r @ post \<noteq> []"
      using assms(2) by auto
    ultimately show ?thesis
      using assms(2) True by (subst match_all.simps) (simp add: Let_def)
  next
    case False
    with less.prems have bad: "\<not> printable (last pre)" and "last pre \<in> set pre"
      by simp_all
    then have tw: "takeWhile printable (pre @ r @ post) = takeWhile printable pre"
      by (intro takeWhile_append1) auto
    have short: "length (takeWhile printable pre) < length pre"
      using bad \<open>last pre \<in> set pre\<close> by (rule takeWhile_shorter [rotated])
    show ?thesis
    proof (cases "3 \<le> length (takeWhile printable pre)")
      case True
      let ?k = "length (takeWhile printable pre)"
      have "drop ?k pre \<noteq> []" and "last (drop ?k pre) = last pre"
        using short by simp_all
      moreover have "length (drop ?k pre) < length pre"
        using True short by simp
      ultimately have "r \<in> set (match_all (drop ?k pre @ r @ post))"
        using less.hyps [of "drop ?k pre"] bad by simp
      moreover have "drop ?k (pre @ r @ post) = drop ?k pre @ r @ post"
        using short by simp
      ultimately show ?thesis
        using True False tw by (subst match_all.simps) (simp add: Let_def)
    next
      case small: False
      have "tl pre = [] \<or> \<not> printable (last (tl pre))"
        using bad False by (cases pre) (auto split: if_splits)
      moreover have "length (tl pre) < length pre"
        using False by (cases pre) auto
      ultimately have "r \<in> set (match_all (tl pre @ r @ post))"
        using less.hyps [of "tl pre"] by simp
      moreover have "tl (pre @ r @ post) = tl pre @ r @ post"
        using False by simp
      ultimately show ?thesis
        using small False tw by (subst match_all.simps) (simp add: Let_def)
    qed
  qed
qed

lemma printable_decoded:
  assumes "maximal_run bs i n" and "3 \<le> n"
  shows "map unat (take n (drop i bs)) \<in> set (match_all (utf8_decode bs))"
proof -
  let ?pre = "take i bs" and ?r = "take n (drop i bs)" and ?post = "drop (i + n) bs"
  from assms(1) have len: "i + n \<le> length bs"
    and all: "\<forall>b \<in> set ?r. printable (unat b)"
    and left: "i = 0 \<or> \<not> printable (unat (bs ! (i - 1)))"
    and right: "i + n = length bs \<or> \<not> printable (unat (bs ! (i + n)))"
    by (simp_all add: maximal_run_def printable_byte_def list_all_iff)
  have bs: "bs = ?pre @ ?r @ ?post"
    by (metis append_take_drop_id drop_drop add.commute)
  have ascii: "\<forall>b \<in> set ?r. unat b < 0x80"
    using all printable_ascii by blast
  have "?r \<noteq> []"
    using assms(2) len by auto
  then have "unat (hd (?r @ ?post)) < 0x80"
    using ascii by (cases ?r) auto
  then have "utf8_decode bs = utf8_decode ?pre @ utf8_decode (?r @ ?post)"
    by (subst bs) (simp add: utf8_decode_append del: append_take_drop_id)
  then have dec: "utf8_decode bs = utf8_decode ?pre @ map unat ?r @ utf8_decode ?post"
    using ascii by (simp add: utf8_decode_ascii_run)
  have l: "utf8_decode ?pre = [] \<or> \<not> printable (last (utf8_decode ?pre))"
  proof (cases "i = 0")
    case True
    then show ?thesis by simp
  next
    case False
    with len have ne: "?pre \<noteq> []" and "length ?pre = i"
      by auto
    then have "last ?pre = ?pre ! (i - 1)"
      by (simp add: last_conv_nth del: length_take)
    also have "\<dots> = bs ! (i - 1)"
      using False by simp
    finally show ?thesis
      using left False ne utf8_decode_last [of ?pre] by simp
  qed
  have r: "utf8_decode ?post = [] \<or> \<not> printable (hd (utf8_decode ?post))"
  proof (cases "i + n = length bs")
    case True
    then show ?thesis by simp
  next
    case False
    with len have "?post \<noteq> []" and "hd ?post = bs ! (i + n)"
      by (auto simp: hd_drop_conv_nth)
    with right False utf8_decode_hd [of ?post] show ?thesis by simp
  qed
  have "map unat ?r \<in> set (match_all (utf8_decode ?pre @ map unat ?r @ utf8_decode ?post))"
    using all assms(2) len by (intro match_all_run l r) auto
  then show ?thesis
    by (simp add: dec)
qed

lemma readUInt32LE_in_window:
  "int offset < min (int (length buffer) - 4) 200 \<Longrightarrow>
     offset + 4 \<le> length buffer \<and> (\<exists>len. readUInt32LE buffer offset = Inr len)"
  by (simp add: readUInt32LE_def)

lemma scan_from_spec:
  "\<exists>recs. scan_from buffer offset = Inr recs \<and>
     (\<forall>r. r \<in> set recs \<longleftrightarrow>
        (\<exists>off len. offset \<le> off \<and> int off < min (int (length buffer) - 4) 200 \<and>
           readUInt32LE buffer off = Inr len \<and> r \<in> set (frame_at buffer off len)))"
proof (induction buffer offset rule: scan_from.induct)
  case (1 buffer offset)
  show ?case
  proof (cases "int offset < min (int (length buffer) - 4) 200")
    case False
    then have "scan_from buffer offset = Inr []"
      by (subst scan_from.simps) (simp only: if_False)
    moreover have "\<not> (\<exists>off. offset \<le> off \<and> int off < min (int (length buffer) - 4) 200)"
      using False by auto
    ultimately show ?thesis by auto
  next
    case True
    then obtain len where len: "readUInt32LE buffer offset = Inr len"
      using readUInt32LE_in_window by blast
    from "1.IH" [OF True len] obtain rest where
      rest: "scan_from buffer (offset + 1) = Inr rest"
      and mem: "\<And>r. r \<in> set rest \<longleftrightarrow>
        (\<exists>off len. offset + 1 \<le> off \<and> int off < min (int (length buffer) - 4) 200 \<and>
           readUInt32LE buffer off = Inr len \<and> r \<in> set (frame_at buffer off len))"
      by blast
    have eq: "scan_from buffer offset = Inr (frame_at buffer offset len @ rest)"
      using True len rest by (subst scan_from.simps) simp
    have "r \<in> set (frame_at buffer offset len @ rest) \<longleftrightarrow>
        (\<exists>off len. offset \<le> off \<and> int off < min (int (length buffer) - 4) 200 \<and>
           readUInt32LE buffer off = Inr len \<and> r \<in> set (frame_at buffer off len))"
      (is "?l \<longleftrightarrow> ?r") for r
    proof
      assume ?l
      then consider "r \<in> set (frame_at buffer offset len)" | "r \<in> set rest"
        by auto
      then show ?r
      proof cases
        case 1
        with True len show ?thesis by blast
      next
        case 2
        then obtain off len' where "offset + 1 \<le> off"
          "int off < min (int (length buffer) - 4) 200"
          "readUInt32LE buffer off = Inr len'" "r \<in> set (frame_at buffer off len')"
          using mem by blast
        then show ?thesis
          by (intro exI [of _ off] exI [of _ len']) simp
      qed
    next
      assume ?r
      then obtain off len' where o: "offset \<le> off"
        "int off < min (int (length buffer) - 4) 200"
        "readUInt32LE buffer off = Inr len'" "r \<in> set (frame_at buffer off len')"
        by blast
      show ?l
      proof (cases "off = offset")
        case True
        with o len show ?thesis by simp
      next
        case False
        with o have "offset + 1 \<le> off" by simp
        with o mem show ?thesis by auto
      qed
    qed
    with eq show ?thesis by blast
  qed
qed

lemma frame_at_iff:
  "r \<in> set (frame_at buffer offset len) \<longleftrightarrow>
     0 < len \<and> len < 1000 \<and> offset + 4 + len \<le> length buffer \<and>
     (\<exists>u \<in> set (utf8_decode (take len (drop (offset + 4) buffer))). letter u) \<and>
     r = Length_prefixed offset len (utf8_decode (take len (drop (offset + 4) buffer)))"
  by (auto simp: frame_at_def toString_utf8_def test_letter_def list_ex_iff Let_def)

lemma length_prefixed_scan_spec:
  "\<exists>recs. length_prefixed_scan buffer = Inr recs \<and>
     (\<forall>r. r \<in> set recs \<longleftrightarrow>
        (\<exists>offset len. int offset < min (int (length buffer) - 4) 200 \<and>
           readUInt32LE buffer offset = Inr len \<and> r \<in> set (frame_at buffer offset len)))"
  using scan_from_spec [of buffer 0] by (simp add: length_prefixed_scan_def)

lemma on_data_eq:
  "\<exists>framed. length_prefixed_scan (buffer @ data) = Inr framed \<and>
     on_data buffer data = Inr (extract_strings (buffer @ data) @ framed, trim (buffer @ data))"
  using length_prefixed_scan_spec [of "buffer @ data"] by (auto simp: on_data_def Let_def)

lemma on_data_join: "on_data buffer data = on_data [] (buffer @ data)"
  by (simp add: on_data_def)

lemma trim_bounded: "length (trim buffer) \<le> 8192"
  by (simp add: trim_def)

lemma trim_small: "length buffer \<le> 8192 \<Longrightarrow> trim buffer = buffer"
  by (simp add: trim_def)

lemma feed_bounded:
  "\<exists>recs final. feed buffer chunks = Inr (recs, final) \<and>
     (length buffer \<le> 8192 \<longrightarrow> length final \<le> 8192)"
proof (induction chunks arbitrary: buffer)
  case Nil
  then show ?case by simp
next
  case (Cons data chunks)
  from on_data_eq [of buffer data] obtain recs where
    "on_data buffer data = Inr (recs, trim (buffer @ data))" by blast
  moreover from Cons.IH [of "trim (buffer @ data)"] obtain more final where
    "feed (trim (buffer @ data)) chunks = Inr (more, final)" and "length final \<le> 8192"
    using trim_bounded by blast
  ultimately show ?case by simp
qed

lemma feed_small:
  "length (buffer @ concat chunks) \<le> 8192 \<Longrightarrow>
   \<exists>recs. feed buffer chunks = Inr (recs, buffer @ concat chunks) \<and>
     (chunks \<noteq> [] \<longrightarrow>
        (\<exists>final_recs. on_data (buffer @ concat (butlast chunks)) (last chunks)
             = Inr (final_recs, buffer @ concat chunks) \<and> set final_recs \<subseteq> set recs))"
proof (induction chunks arbitrary: buffer)
  case Nil
  then show ?case by simp
next
  case (Cons data chunks)
  from Cons.prems have small: "length (buffer @ data) \<le> 8192"
    and small': "length ((buffer @ data) @ concat chunks) \<le> 8192"
    by simp_all
  from on_data_eq [of buffer data] trim_small [OF small] obtain r1 where
    r1: "on_data buffer data = Inr (r1, buffer @ data)" by auto
  from Cons.IH [OF small'] obtain more where
    more: "feed (buffer @ data) chunks = Inr (more, (buffer @ data) @ concat chunks)"
    and fin: "chunks \<noteq> [] \<longrightarrow>
        (\<exists>final_recs. on_data ((buffer @ data) @ concat (butlast chunks)) (last chunks)
             = Inr (final_recs, (buffer @ data) @ concat chunks) \<and> set final_recs \<subseteq> set more)"
    by blast
  have eq: "feed buffer (data # chunks) = Inr (r1 @ more, buffer @ concat (data # chunks))"
    using r1 more by simp
  show ?case
  proof (cases "chunks = []")
    case True
    with eq r1 show ?thesis by auto
  next
    case False
    with fin obtain final_recs where
      "on_data ((buffer @ data) @ concat (butlast chunks)) (last chunks)
         = Inr (final_recs, (buffer @ data) @ concat chunks)"
      and "set final_recs \<subseteq> set more"
      by blast
    with eq False show ?thesis by auto
  qed
qed

lemma utf8_decode_all_ascii: "\<forall>b \<in> set bs. unat b < 0x80 \<Longrightarrow> utf8_decode bs = map unat bs"
  using utf8_decode_ascii_run [of bs "[]"] by simp

lemma match_all_none: "\<forall>u \<in> set t. \<not> printable u \<Longrightarrow> match_all t = []"
proof (induction t)
  case Nil
  then show ?case by (simp add: match_all.simps)
next
  case (Cons u t)
  then show ?case by (subst match_all.simps) simp
qed

lemma extract_strings_Nil: "extract_strings [] = []"
  by (simp add: extract_strings_def toString_utf8_def match_all.simps)

lemma trim_large:
  "8192 < length xs \<Longrightarrow> trim xs = drop (length xs - 4096) xs \<and> length (trim xs) = 4096"
  by (simp add: trim_def)

lemma extract_strings_prefix:
  "4096 \<le> length b \<Longrightarrow> extract_strings (b @ c) = extract_strings b"
  by (simp add: extract_strings_def toString_utf8_def min_def)

lemma readUInt32LE_prefix:
  "offset + 4 \<le> length b \<Longrightarrow> readUInt32LE (b @ c) offset = readUInt32LE b offset"
  by (simp add: readUInt32LE_def nth_append)

lemma frame_at_prefix:
  assumes "4096 \<le> length b" and "offset < 200"
  shows "frame_at (b @ c) offset len = frame_at b offset len"
proof (cases "0 < len \<and> len < 1000")
  case True
  with assms have "offset + 4 + len \<le> length b"
    by simp
  then show ?thesis
    by (simp add: frame_at_def toString_utf8_def)
next
  case False
  then show ?thesis
    by (auto simp: frame_at_def)
qed

lemma scan_spec_large:
  assumes "4096 \<le> length b" and "length_prefixed_scan b = Inr recs"
  shows "r \<in> set recs \<longleftrightarrow>
     (\<exists>offset len. offset < 200 \<and> readUInt32LE b offset = Inr len \<and>
        r \<in> set (frame_at b offset len))"
proof -
  from length_prefixed_scan_spec [of b] assms(2)
  have mem: "r \<in> set recs \<longleftrightarrow>
     (\<exists>offset len. int offset < min (int (length b) - 4) 200 \<and>
        readUInt32LE b offset = Inr len \<and> r \<in> set (frame_at b offset len))"
    by auto
  have w: "int offset < min (int (length b) - 4) 200 \<longleftrightarrow> offset < 200" for offset
    using assms(1) by auto
  show ?thesis
    unfolding mem w ..
qed

lemma scan_prefix:
  assumes "4096 \<le> length b"
    and "length_prefixed_scan b = Inr r1" and "length_prefixed_scan (b @ c) = Inr r2"
  shows "set r1 = set r2"
proof -
  have large: "4096 \<le> length (b @ c)"
    using assms(1) by simp
  have "r \<in> set r1 \<longleftrightarrow> r \<in> set r2" for r
  proof -
    have "(\<exists>offset len. offset < 200 \<and> readUInt32LE b offset = Inr len \<and>
           r \<in> set (frame_at b offset len)) \<longleftrightarrow>
        (\<exists>offset len. offset < 200 \<and> readUInt32LE (b @ c) offset = Inr len \<and>
           r \<in> set (frame_at (b @ c) offset len))"
      using assms(1) by (intro ex_cong1 conj_cong refl) (simp_all add: readUInt32LE_prefix frame_at_prefix)
    then show ?thesis
      unfolding scan_spec_large [OF assms(1) assms(2)] scan_spec_large [OF large assms(3)] .
  qed
  then show ?thesis by blast
qed

lemma on_data_prefix:
  assumes "4096 \<le> length b"
    and "on_data [] b = Inr (r1, f1)" and "on_data [] (b @ c) = Inr (r2, f2)"
  shows "set r1 = set r2"
proof -
  from on_data_eq [of "[]" b] assms(2) obtain l1 where
    l1: "length_prefixed_scan b = Inr l1" and r1: "r1 = extract_strings b @ l1"
    by auto
  from on_data_eq [of "[]" "b @ c"] assms(3) obtain l2 where
    l2: "length_prefixed_scan (b @ c) = Inr l2" and r2: "r2 = extract_strings (b @ c) @ l2"
    by auto
  from scan_prefix [OF assms(1) l1 l2] extract_strings_prefix [OF assms(1), of c]
  show ?thesis
    by (simp add: r1 r2)
qed

lemma feed_covers:
  assumes "feed buffer chunks = Inr (recs, final)" and "chunks \<noteq> []"
    and "on_data [] (buffer @ concat chunks) = Inr (single, final')"
  shows "set single \<subseteq> set recs"
  using assms
proof (induction chunks arbitrary: buffer recs final)
  case Nil
  then show ?case by simp
next
  case (Cons data chunks)
  from on_data_eq [of buffer data] obtain r1 where
    r1: "on_data buffer data = Inr (r1, trim (buffer @ data))" by blast
  from feed_bounded [of "trim (buffer @ data)" chunks] obtain more fin where
    more: "feed (trim (buffer @ data)) chunks = Inr (more, fin)" by blast
  from Cons.prems(1) r1 more have recs: "recs = r1 @ more"
    by simp
  show ?case
  proof (cases "8192 < length (buffer @ data)")
    case True
    have "on_data [] (buffer @ data) = Inr (r1, trim (buffer @ data))"
      using r1 by (subst (asm) on_data_join) simp
    moreover have "on_data [] ((buffer @ data) @ concat chunks) = Inr (single, final')"
      using Cons.prems(3) by simp
    moreover have "4096 \<le> length (buffer @ data)"
      using True by simp
    ultimately have "set r1 = set single"
      by (rule on_data_prefix [rotated])
    then show ?thesis
      by (simp add: recs)
  next
    case False
    then have keep: "trim (buffer @ data) = buffer @ data"
      by (simp add: trim_small)
    show ?thesis
    proof (cases "chunks = []")
      case True
      with Cons.prems(3) r1 have "single = r1"
        by (subst (asm) (2) on_data_join) simp
      then show ?thesis
        by (simp add: recs)
    next
      case ne: False
      from more keep have "feed (buffer @ data) chunks = Inr (more, fin)"
        by simp
      from Cons.IH [OF this ne] Cons.prems(3) have "set single \<subseteq> set more"
        by simp
      then show ?thesis
        by (auto simp: recs)
    qed
  qed
qed

section \<open>Properties of the bridge\<close>

lemma capture_screenshot_one_line:
  "\<exists>d. capture_screenshot e format = ([(response_prefix, Stringify (VDictionary d))], VDictionary d)"
  by (simp add: capture_screenshot_def screenshot_error_def Let_def split: option.splits)

section \<open>Properties of the configuration writers\<close>

























section \<open>The claims about the stream decoder\<close>

text \<open>
  Claim C1, as stated: for every way of cutting a byte sequence into chunks, the run over the
  chunks prints the same set of strings as the run over the whole sequence in one chunk.
  It fails for \<^verbatim>\<open>abcdef\<close> cut into \<^verbatim>\<open>abc\<close> and \<^verbatim>\<open>def\<close>: the handler searches the whole
  buffer again at every data event and never removes what it printed, so the chunked run
  prints \<^verbatim>\<open>abc\<close> at the first event and \<^verbatim>\<open>abcdef\<close> at the second, while the single chunk
  prints only \<^verbatim>\<open>abcdef\<close>.
\<close>

theorem chunked_records_differ:
  "printed_set (run [[97, 98, 99], [100, 101, 102]])
     \<noteq> printed_set (run [concat [[97, 98, 99], [100, 101, 102]]])"
proof -
  have scan: "length_prefixed_scan [97, 98, 99] = Inr []"
    "length_prefixed_scan [97, 98, 99, 100, 101, 102] = Inr []"
    by (simp_all add: length_prefixed_scan_def scan_from.simps readUInt32LE_def frame_at_def)
  have a: "extract_strings [97, 98, 99] = [Extracted 0 [97, 98, 99]]"
    by (simp add: extract_strings_def toString_utf8_def utf8_decode_ascii match_all.simps
        printable_def letter_def)
  have b: "extract_strings [97, 98, 99, 100, 101, 102] = [Extracted 0 [97, 98, 99, 100, 101, 102]]"
    by (simp add: extract_strings_def toString_utf8_def utf8_decode_ascii match_all.simps
        printable_def letter_def)
  have "run [[97, 98, 99], [100, 101, 102]]
      = Inr ([Extracted 0 [97, 98, 99], Extracted 0 [97, 98, 99, 100, 101, 102]],
             [97, 98, 99, 100, 101, 102])"
    by (simp add: run_def on_data_def scan a b trim_def)
  moreover have "run [concat [[97, 98, 99], [100, 101, 102]]]
      = Inr ([Extracted 0 [97, 98, 99, 100, 101, 102]], [97, 98, 99, 100, 101, 102])"
    by (simp add: run_def on_data_def scan b trim_def)
  ultimately show ?thesis
    by (simp add: printed_set_def)
qed

text \<open>
  Claim C1, amended: for every byte sequence and every way of cutting it into chunks, both
  runs return, and every string printed by the run over the whole sequence in one chunk
  is also printed by the run over the chunks: at the data event that completes the
  sequence or, for a sequence of more than 8192 bytes, at the first event whose buffer
  exceeds 8192 bytes, where the first 4096 bytes are already those of the whole. The
  chunked run prints the strings of the shorter buffers in addition. While the sequence is
  at most 8192 bytes long, both runs end with the whole sequence as buffer, and the single
  chunk prints exactly what the last data event of the chunked run prints.
\<close>

theorem single_chunk_records_covered:
  "\<exists>recs final single final'.
     run chunks = Inr (recs, final) \<and>
     run [concat chunks] = Inr (single, final') \<and>
     set single \<subseteq> set recs \<and>
     (length (concat chunks) \<le> 8192 \<longrightarrow>
        final = concat chunks \<and> final' = concat chunks \<and>
        (chunks \<noteq> [] \<longrightarrow>
           on_data (concat (butlast chunks)) (last chunks) = Inr (single, concat chunks)))"
proof -
  from feed_bounded [of "[]" chunks] obtain recs final where
    recs: "run chunks = Inr (recs, final)"
    by (auto simp: run_def)
  from on_data_eq [of "[]" "concat chunks"] obtain single where
    single: "on_data [] (concat chunks) = Inr (single, trim (concat chunks))"
    by auto
  then have one: "run [concat chunks] = Inr (single, trim (concat chunks))"
    by (simp add: run_def)
  have sub: "set single \<subseteq> set recs"
  proof (cases "chunks = []")
    case True
    from single have "single = []"
      using on_data_eq [of "[]" "[]"]
      by (auto simp: True extract_strings_Nil length_prefixed_scan_def scan_from.simps)
    then show ?thesis by simp
  next
    case False
    from recs single show ?thesis
      by (intro feed_covers [of "[]" chunks recs final single, OF _ False]) (simp_all add: run_def)
  qed
  have small: "final = concat chunks \<and> trim (concat chunks) = concat chunks \<and>
        (chunks \<noteq> [] \<longrightarrow>
           on_data (concat (butlast chunks)) (last chunks) = Inr (single, concat chunks))"
    if le: "length (concat chunks) \<le> 8192"
  proof -
    from feed_small [of "[]" chunks] le recs have "final = concat chunks"
      by (auto simp: run_def)
    moreover have t: "trim (concat chunks) = concat chunks"
      using le by (rule trim_small)
    moreover have "on_data (concat (butlast chunks)) (last chunks) = Inr (single, concat chunks)"
      if ne: "chunks \<noteq> []"
    proof -
      have "concat (butlast chunks) @ last chunks = concat chunks"
        using ne by (metis append_butlast_last_id concat.simps concat_append append_Nil2)
      with single t show ?thesis
        by (subst on_data_join) simp
    qed
    ultimately show ?thesis by blast
  qed
  show ?thesis
    using recs one sub small by blast
qed

text \<open>The amended claim C1 at \<^verbatim>\<open>abc\<close>, \<^verbatim>\<open>def\<close>.\<close>

theorem single_chunk_records_covered_witness:
  "printed_set (run [concat [[97, 98, 99], [100, 101, 102]]])
     \<subseteq> printed_set (run [[97, 98, 99], [100, 101, 102]]) \<and>
   on_data [97, 98, 99] [100, 101, 102] = run [concat [[97, 98, 99], [100, 101, 102]]]"
  using single_chunk_records_covered [of "[[97, 98, 99], [100, 101, 102]]"]
  by (auto simp: printed_set_def)

text \<open>
  Claim C2, as stated, ends with: after emitting at an offset the pass advances past the
  emitted span. The loop does not: on the twelve bytes below it prints the frame at offset
  0, whose span ends at 12, and then the frame at offset 4 inside that span.
\<close>

theorem scan_does_not_skip:
  "length_prefixed_scan [8, 0, 0, 0, 1, 0, 0, 0, 97, 0, 0, 0]
     = Inr [Length_prefixed 0 8 [1, 0, 0, 0, 97, 0, 0, 0], Length_prefixed 4 1 [97]] \<and>
   (0 :: nat) < 4 \<and> (4 :: nat) < 0 + 4 + 8"
  by (simp add: length_prefixed_scan_def scan_from.simps readUInt32LE_def frame_at_def
      toString_utf8_def utf8_decode_ascii Let_def test_letter_def letter_def)

text \<open>
  Claim C2, amended: the scan prints a frame for an offset if and only if the offset is in
  the window (below both the buffer length minus 4 and 200), the four bytes there, read as
  a little-endian unsigned number, give a length above 0 and below 1000, that many bytes
  follow in the buffer, and their text has a letter. The frame carries the offset, the
  length and the text. This holds at every offset of the window, whatever was printed
  before: the loop always goes on at the next offset, so printed spans may overlap.
\<close>

theorem scan_emits_iff:
  "\<exists>recs. length_prefixed_scan buffer = Inr recs \<and>
     (\<forall>offset len str. Length_prefixed offset len str \<in> set recs \<longleftrightarrow>
        int offset < min (int (length buffer) - 4) 200 \<and>
        readUInt32LE buffer offset = Inr len \<and>
        0 < len \<and> len < 1000 \<and> offset + 4 + len \<le> length buffer \<and>
        str = utf8_decode (take len (drop (offset + 4) buffer)) \<and>
        (\<exists>u \<in> set str. letter u))"
proof -
  from length_prefixed_scan_spec [of buffer] obtain recs where
    recs: "length_prefixed_scan buffer = Inr recs"
    and mem: "\<And>r. r \<in> set recs \<longleftrightarrow>
        (\<exists>offset len. int offset < min (int (length buffer) - 4) 200 \<and>
           readUInt32LE buffer offset = Inr len \<and> r \<in> set (frame_at buffer offset len))"
    by blast
  show ?thesis
    unfolding recs by (rule exI [of _ recs]) (auto simp: mem frame_at_iff)
qed

text \<open>The amended claim C2 on the twelve bytes of the counterexample.\<close>

theorem scan_emits_iff_witness:
  "\<exists>recs. length_prefixed_scan [8, 0, 0, 0, 1, 0, 0, 0, 97, 0, 0, 0] = Inr recs \<and>
     Length_prefixed 4 1 [97] \<in> set recs \<and> Length_prefixed 5 0 [] \<notin> set recs"
proof -
  let ?B = "[8, 0, 0, 0, 1, 0, 0, 0, 97, 0, 0, 0] :: byte list"
  from scan_emits_iff [of ?B] obtain recs where
    recs: "length_prefixed_scan ?B = Inr recs"
    and iff: "\<And>offset len str. Length_prefixed offset len str \<in> set recs \<longleftrightarrow>
        int offset < min (int (length ?B) - 4) 200 \<and>
        readUInt32LE ?B offset = Inr len \<and>
        0 < len \<and> len < 1000 \<and> offset + 4 + len \<le> length ?B \<and>
        str = utf8_decode (take len (drop (offset + 4) ?B)) \<and>
        (\<exists>u \<in> set str. letter u)"
    by blast
  have "Length_prefixed 4 1 [97] \<in> set recs"
    by (simp add: iff readUInt32LE_def utf8_decode_ascii letter_def)
  moreover have "Length_prefixed 5 0 [] \<notin> set recs"
    by (simp add: iff)
  ultimately show ?thesis
    using recs by blast
qed

text \<open>
  Claim C3, as stated: in a buffer where the length-prefixed scan finds nothing, every
  maximal run of three or more printable bytes is printed. It fails behind the first 4096
  bytes, which is all the handler decodes: 4096 zero bytes followed by \<^verbatim>\<open>abc\<close> give no
  frame, hold the maximal run \<^verbatim>\<open>abc\<close> at position 4096, and nothing is printed.
\<close>

theorem run_beyond_window_not_extracted:
  "length_prefixed_scan (replicate 4096 0 @ [97, 98, 99]) = Inr [] \<and>
   maximal_run (replicate 4096 0 @ [97, 98, 99]) 4096 3 \<and>
   extract_strings (replicate 4096 0 @ [97, 98, 99]) = []"
proof -
  let ?B = "replicate 4096 0 @ [97, 98, 99] :: byte list"
  have zero: "readUInt32LE ?B offset = Inr 0" if "offset < 200" for offset
    using that by (simp add: readUInt32LE_def nth_append)
  have none: "r \<notin> set recs"
    if "\<And>r. r \<in> set recs \<longleftrightarrow>
        (\<exists>offset len. int offset < min (int (length ?B) - 4) 200 \<and>
           readUInt32LE ?B offset = Inr len \<and> r \<in> set (frame_at ?B offset len))"
    for r recs
  proof
    assume "r \<in> set recs"
    with that obtain offset len where "int offset < min (int (length ?B) - 4) 200"
      and "readUInt32LE ?B offset = Inr len" and r: "r \<in> set (frame_at ?B offset len)"
      by blast
    with zero [of offset] have "len = 0" by simp
    with r show False by (simp add: frame_at_def)
  qed
  from length_prefixed_scan_spec [of ?B] obtain recs where
    "length_prefixed_scan ?B = Inr recs" and "\<And>r. r \<notin> set recs"
    using none by blast
  then have scan: "length_prefixed_scan ?B = Inr []"
    by (cases recs) auto
  have run: "maximal_run ?B 4096 3"
    by (simp add: maximal_run_def printable_byte_def printable_def letter_def nth_append)
  have "utf8_decode (replicate 4096 0) = map unat (replicate 4096 (0 :: byte))"
    by (rule utf8_decode_all_ascii) simp
  moreover have "match_all (map unat (replicate 4096 (0 :: byte))) = []"
    by (rule match_all_none) (simp add: printable_def letter_def)
  ultimately have "extract_strings ?B = []"
    by (simp add: extract_strings_def toString_utf8_def)
  with scan run show ?thesis by simp
qed

text \<open>
  Claim C3, amended: every maximal run of three or more printable bytes of the first 4096
  bytes of the buffer is printed, with its index among the matches, whether or not the
  length-prefixed scan finds anything.
\<close>

theorem printable_runs_extracted:
  assumes "maximal_run (take 4096 buffer) i n" and "3 \<le> n"
  shows "\<exists>k. Extracted k (map unat (take n (drop i buffer))) \<in> set (extract_strings buffer)"
proof -
  let ?s = "map unat (take n (drop i buffer))"
  let ?strings = "match_all (utf8_decode (take 4096 buffer))"
  from assms(1) have len: "i + n \<le> length (take 4096 buffer)"
    by (simp add: maximal_run_def)
  then have "n \<le> 4096 - i"
    by auto
  then have "take n (drop i (take 4096 buffer)) = take n (drop i buffer)"
    by (simp add: drop_take min_absorb1)
  with printable_decoded [OF assms] have "?s \<in> set ?strings"
    by simp
  then obtain k where k: "k < length ?strings" and s: "?strings ! k = ?s"
    by (auto simp: in_set_conv_nth)
  have "length ?s = n"
    using len by auto
  with assms(2) have long: "2 < length ?s"
    by simp
  have "(k, ?s) \<in> set (zip [0 ..< length ?strings] ?strings)"
    using k s by (auto simp: set_zip intro!: exI [of _ k])
  with long have "Extracted k ?s \<in> set (map (\<lambda>(i, str). Extracted i str)
      (filter (\<lambda>(i, str). 2 < length str) (zip [0 ..< length ?strings] ?strings)))"
    by force
  moreover have "take (min (length buffer) 4096) buffer = take 4096 buffer"
    by (simp add: min_def)
  ultimately have "Extracted k ?s \<in> set (extract_strings buffer)"
    by (simp add: extract_strings_def toString_utf8_def Let_def)
  then show ?thesis ..
qed

text \<open>The amended claim C3 on \<^verbatim>\<open>hi!\<close> between a zero byte and the byte FF.\<close>

theorem printable_runs_extracted_witness:
  "maximal_run (take 4096 [0, 104, 105, 33, 255]) 1 3 \<and> (3 :: nat) \<le> 3 \<and>
   (\<exists>k. Extracted k [104, 105, 33] \<in> set (extract_strings [0, 104, 105, 33, 255]))"
proof -
  have m: "maximal_run (take 4096 [0, 104, 105, 33, 255]) 1 3"
    by (simp add: maximal_run_def printable_byte_def printable_def letter_def)
  from printable_runs_extracted [OF m] m show ?thesis by simp
qed

text \<open>
  Claim C4, as stated, has the buffer trimmed after every successful decode pass. The
  handler has no notion of consumed bytes: after a pass that printed \<^verbatim>\<open>abc\<close> the buffer
  still holds all three bytes.
\<close>

theorem successful_pass_keeps_buffer:
  "on_data [] [97, 98, 99] = Inr ([Extracted 0 [97, 98, 99]], [97, 98, 99])"
  by (simp add: on_data_def length_prefixed_scan_def scan_from.simps trim_def
      extract_strings_def toString_utf8_def utf8_decode_ascii match_all.simps
      printable_def letter_def)

text \<open>
  Claim C4, amended: the only trimming is by size. After every data event the buffer is
  the old buffer with the chunk appended if that is at most 8192 bytes long, and its last
  4096 bytes otherwise, whatever the pass printed; so after every chunk, and at the end of
  every run, the buffer holds at most 8192 bytes.
\<close>

theorem buffer_bounded:
  "(\<exists>recs. on_data buffer data = Inr (recs, trim (buffer @ data))) \<and>
   length (trim (buffer @ data)) \<le> 8192 \<and>
   (length (buffer @ data) \<le> 8192 \<longrightarrow> trim (buffer @ data) = buffer @ data) \<and>
   (8192 < length (buffer @ data) \<longrightarrow>
      trim (buffer @ data) = drop (length (buffer @ data) - 4096) (buffer @ data) \<and>
      length (trim (buffer @ data)) = 4096) \<and>
   (\<exists>recs final. run chunks = Inr (recs, final) \<and> length final \<le> 8192)"
proof -
  have "\<exists>recs. on_data buffer data = Inr (recs, trim (buffer @ data))"
    using on_data_eq [of buffer data] by blast
  moreover have "\<exists>recs final. run chunks = Inr (recs, final) \<and> length final \<le> 8192"
    using feed_bounded [of "[]" chunks] by (simp add: run_def)
  moreover have "8192 < length (buffer @ data) \<longrightarrow>
      trim (buffer @ data) = drop (length (buffer @ data) - 4096) (buffer @ data) \<and>
      length (trim (buffer @ data)) = 4096"
    using trim_large [of "buffer @ data"] by blast
  ultimately show ?thesis
    using trim_bounded [of "buffer @ data"] trim_small [of "buffer @ data"] by blast
qed

text \<open>The amended claim C4 at 8193 bytes, which are cut to 4096, and at 8192, which are kept.\<close>

theorem buffer_bounded_witness:
  "length (trim (replicate 8000 0 @ replicate 193 (1 :: byte))) = 4096 \<and>
   trim (replicate 8000 0 @ replicate 192 (1 :: byte)) = replicate 8000 0 @ replicate 192 1"
  using buffer_bounded [of "replicate 8000 0" "replicate 193 1" "[]"]
    buffer_bounded [of "replicate 8000 0" "replicate 192 1" "[]"]
  by simp

text \<open>
  Claim C9: the length-prefixed scan never reads outside the buffer. It returns for every
  buffer without a \<open>RangeError\<close>; at every offset of the loop, which is bounded by the
  smaller of the buffer length minus 4 and 200, four bytes are there, so a buffer of fewer
  than five bytes is not scanned at all; and every printed frame lies inside the buffer.
\<close>

theorem scan_memory_safe:
  "\<exists>recs. length_prefixed_scan buffer = Inr recs \<and>
     (length buffer < 5 \<longrightarrow> recs = []) \<and>
     (\<forall>offset. int offset < min (int (length buffer) - 4) 200 \<longrightarrow>
        offset + 4 \<le> length buffer \<and> (\<exists>len. readUInt32LE buffer offset = Inr len)) \<and>
     (\<forall>offset len str. Length_prefixed offset len str \<in> set recs \<longrightarrow>
        offset + 4 + len \<le> length buffer \<and>
        length (take len (drop (offset + 4) buffer)) = len)"
proof -
  from length_prefixed_scan_spec [of buffer] obtain recs where
    recs: "length_prefixed_scan buffer = Inr recs"
    and mem: "\<And>r. r \<in> set recs \<longleftrightarrow>
        (\<exists>offset len. int offset < min (int (length buffer) - 4) 200 \<and>
           readUInt32LE buffer offset = Inr len \<and> r \<in> set (frame_at buffer offset len))"
    by blast
  have "recs = []" if "length buffer < 5"
  proof -
    from that have none: "\<not> (\<exists>offset. int offset < min (int (length buffer) - 4) 200)"
      by auto
    have "r \<notin> set recs" for r
      using mem [of r] none by blast
    then show ?thesis by (cases recs) auto
  qed
  moreover have "offset + 4 + len \<le> length buffer \<and> length (take len (drop (offset + 4) buffer)) = len"
    if "Length_prefixed offset len str \<in> set recs" for offset len str
    using that by (auto simp: mem frame_at_iff)
  ultimately show ?thesis
    unfolding recs using readUInt32LE_in_window [of _ buffer] by (intro exI [of _ recs]) blast
qed

text \<open>Claim C9 on a buffer of four bytes, which is not scanned, and on one of six.\<close>

theorem scan_memory_safe_witness:
  "\<exists>recs. length_prefixed_scan [1, 0, 0, 0] = Inr recs \<and> recs = [] \<and>
     readUInt32LE [1, 0, 0, 0, 97, 0] 1 = Inr 1627389952"
proof -
  have "length_prefixed_scan [1, 0, 0, 0] = Inr []"
    using scan_memory_safe [of "[1, 0, 0, 0]"] by auto
  moreover have "readUInt32LE [1, 0, 0, 0, 97, 0] 1 = Inr 1627389952"
    using scan_memory_safe [of "[1, 0, 0, 0, 97, 0]"] by (simp add: readUInt32LE_def)
  ultimately show ?thesis by simp
qed

section \<open>The claims about the bridge\<close>

text \<open>
  Claim C5, as stated, gives every response for a recognized action a \<^verbatim>\<open>success\<close> flag. The
  responses of a failed screenshot have none: without a viewport the script prints a
  dictionary of \<^verbatim>\<open>type\<close> and \<^verbatim>\<open>error\<close> only.
\<close>

theorem screenshot_failure_has_no_success:
  "fst (capture_screenshot (example_engine\<lparr>viewport := None\<rparr>) ''png'')
     = [(response_prefix, Stringify (VDictionary
          [(''type'', VString ''screenshot''), (''error'', VString ''Failed to get viewport'')]))] \<and>
   response_field (response_prefix, Stringify (VDictionary
          [(''type'', VString ''screenshot''), (''error'', VString ''Failed to get viewport'')]))
     ''success'' = None"
  by (simp add: capture_screenshot_def screenshot_error_def example_engine_def response_field_def
      Let_def)

text \<open>
  Claim C5, amended: \<^verbatim>\<open>capture_screenshot\<close> and \<^verbatim>\<open>simulate_click\<close> each print exactly one
  line, the response prefix followed by the JSON of a dictionary whose \<^verbatim>\<open>type\<close> is the
  action. A successful response carries \<^verbatim>\<open>success\<close> as true and the fields of the action:
  for a screenshot the base64 text of the encoded image, the size of the encoded image in
  bytes, the width and height of the image and the requested format, for a click the
  coordinates and the button. A failed screenshot carries an \<^verbatim>\<open>error\<close> message instead and
  no \<^verbatim>\<open>success\<close> field.
\<close>

theorem recognized_action_responses:
  "(\<exists>l. fst (capture_screenshot e format) = [l] \<and> fst l = response_prefix \<and>
      response_field l ''type'' = Some (VString ''screenshot'') \<and>
      (case viewport e of
         Some (Some img) \<Rightarrow>
           (let buffer = (if format = ''jpg'' \<or> format = ''jpeg''
                          then save_jpg_to_buffer img else save_png_to_buffer img)
            in if buffer = [] then
                 response_field l ''success'' = None \<and>
                 response_field l ''error'' = Some (VString ''Failed to encode image'')
               else
                 response_field l ''success'' = Some (VBool True) \<and>
                 response_field l ''error'' = None \<and>
                 response_field l ''data'' = Some (VString (raw_to_base64 buffer)) \<and>
                 response_field l ''size'' = Some (VInt (int (length buffer))) \<and>
                 response_field l ''width'' = Some (VInt (get_width img)) \<and>
                 response_field l ''height'' = Some (VInt (get_height img)) \<and>
                 response_field l ''format'' = Some (VString format))
       | Some None \<Rightarrow>
           response_field l ''success'' = None \<and>
           response_field l ''error'' = Some (VString ''Failed to get image from viewport'')
       | None \<Rightarrow>
           response_field l ''success'' = None \<and>
           response_field l ''error'' = Some (VString ''Failed to get viewport''))) \<and>
   (\<exists>l. fst (snd (simulate_click x y button)) = [l] \<and> fst l = response_prefix \<and>
      response_field l ''type'' = Some (VString ''click'') \<and>
      response_field l ''success'' = Some (VBool True) \<and>
      response_field l ''x'' = Some (VInt x) \<and>
      response_field l ''y'' = Some (VInt y) \<and>
      response_field l ''button'' = Some (VInt button))"
  by (simp add: capture_screenshot_def screenshot_error_def simulate_click_def
      response_field_def Let_def split: option.splits)

text \<open>The amended claim C5 on a screenshot of the example engine.\<close>

theorem recognized_action_responses_witness:
  \<open>\<exists>l. fst (capture_screenshot example_engine ''png'') = [l] \<and>
     fst l = ''MCP_RESPONSE:'' \<and>
     response_field l ''type'' = Some (VString ''screenshot'') \<and>
     response_field l ''success'' = Some (VBool True) \<and>
     response_field l ''data'' = Some (VString ''iVBORw=='') \<and>
     response_field l ''size'' = Some (VInt 4) \<and>
     response_field l ''width'' = Some (VInt 640) \<and>
     response_field l ''height'' = Some (VInt 480) \<and>
     response_field l ''format'' = Some (VString ''png'')\<close>
proof -
  have v: "viewport example_engine = Some (Some example_image)"
    by (simp add: example_engine_def)
  have i: "get_width example_image = 640" "get_height example_image = 480"
    "save_png_to_buffer example_image = [0x89, 0x50, 0x4E, 0x47]"
    by (simp_all add: example_image_def)
  from recognized_action_responses [THEN conjunct1, of example_engine "''png''"]
  obtain l where "fst (capture_screenshot example_engine ''png'') = [l]"
    and "fst l = response_prefix"
    and "response_field l ''type'' = Some (VString ''screenshot'')"
    and "response_field l ''success'' = Some (VBool True)"
    and "response_field l ''data'' = Some (VString ''iVBORw=='')"
    and "response_field l ''size'' = Some (VInt 4)"
    and "response_field l ''width'' = Some (VInt 640)"
    and "response_field l ''height'' = Some (VInt 480)"
    and "response_field l ''format'' = Some (VString ''png'')"
    by (auto simp: v i Let_def sextet_def base64_alphabet_def)
  then show ?thesis
    by (auto simp: response_prefix_def)
qed

text \<open>
  Claim C6, as stated, holds for every command string. The command \<^verbatim>\<open>42\<close> is valid JSON and
  parses to a number; the dispatcher calls \<^verbatim>\<open>get\<close> on it, which is a runtime error, and
  prints nothing.
\<close>

theorem number_command_raises:
  "json_parse example_engine number_command = Some (VInt 42) \<and>
   on_command_received example_engine number_command = Inl Invalid_call"
  by (simp add: on_command_received_def get_def example_engine_def)

text \<open>
  Claim C6, amended: a command string that is not valid JSON gives exactly the one line of
  the invalid-command error; a JSON object whose action is neither \<^verbatim>\<open>screenshot\<close> nor
  \<^verbatim>\<open>click\<close> gives exactly the one line of the unknown-action error; and for every JSON
  object whose \<^verbatim>\<open>format\<close>, where present, is a string and whose \<^verbatim>\<open>x\<close>, \<^verbatim>\<open>y\<close> and
  \<^verbatim>\<open>button\<close>, where present, are numbers, the dispatcher ends without a runtime error
  and prints exactly one line, which starts with the response prefix.
\<close>

theorem dispatcher_responds:
  \<open>(json_parse e command_str = None \<longrightarrow>
      on_command_received e command_str
        = Inr \<lparr>printed = [(response_prefix,
                   Literal ''{"type":"error","message":"Invalid JSON command"}'')],
                input_events = []\<rparr>) \<and>
   (json_parse e command_str = Some (VDictionary c) \<and>
    map_of c ''action'' \<noteq> Some (VString ''screenshot'') \<and>
    map_of c ''action'' \<noteq> Some (VString ''click'') \<longrightarrow>
      on_command_received e command_str
        = Inr \<lparr>printed = [(response_prefix,
                   Literal ''{"type":"error","message":"Unknown command action"}'')],
                input_events = []\<rparr>) \<and>
   (json_parse e command_str = Some (VDictionary c) \<and>
    absent_or_string (map_of c ''format'') \<and> absent_or_int (map_of c ''x'') \<and>
    absent_or_int (map_of c ''y'') \<and> absent_or_int (map_of c ''button'') \<longrightarrow>
      (\<exists>out l. on_command_received e command_str = Inr out \<and>
         printed out = [l] \<and> fst l = response_prefix))\<close>
proof (intro conjI impI)
  assume "json_parse e command_str = None"
  then show \<open>on_command_received e command_str
        = Inr \<lparr>printed = [(response_prefix,
                   Literal ''{"type":"error","message":"Invalid JSON command"}'')],
                input_events = []\<rparr>\<close>
    by (simp add: on_command_received_def invalid_json_def)
next
  assume "json_parse e command_str = Some (VDictionary c) \<and>
    map_of c ''action'' \<noteq> Some (VString ''screenshot'') \<and>
    map_of c ''action'' \<noteq> Some (VString ''click'')"
  then show \<open>on_command_received e command_str
        = Inr \<lparr>printed = [(response_prefix,
                   Literal ''{"type":"error","message":"Unknown command action"}'')],
                input_events = []\<rparr>\<close>
    by (auto simp: on_command_received_def get_def unknown_action_def split: option.splits)
next
  assume a: "json_parse e command_str = Some (VDictionary c) \<and>
    absent_or_string (map_of c ''format'') \<and> absent_or_int (map_of c ''x'') \<and>
    absent_or_int (map_of c ''y'') \<and> absent_or_int (map_of c ''button'')"
  then obtain f where f: "to_String (case map_of c ''format'' of None \<Rightarrow> VString ''png'' | Some v \<Rightarrow> v) = Inr f"
    by (auto simp: absent_or_string_def to_String_def split: option.splits variant.splits)
  from a obtain x y b where
    x: "to_int (case map_of c ''x'' of None \<Rightarrow> VInt 0 | Some v \<Rightarrow> v) = Inr x"
    and y: "to_int (case map_of c ''y'' of None \<Rightarrow> VInt 0 | Some v \<Rightarrow> v) = Inr y"
    and b: "to_int (case map_of c ''button'' of None \<Rightarrow> VInt MOUSE_BUTTON_LEFT | Some v \<Rightarrow> v) = Inr b"
    by (auto simp: absent_or_int_def to_int_def split: option.splits variant.splits)
  from capture_screenshot_one_line [of e f] obtain d where
    d: "fst (capture_screenshot e f) = [(response_prefix, Stringify (VDictionary d))]"
    by auto
  show "\<exists>out l. on_command_received e command_str = Inr out \<and>
         printed out = [l] \<and> fst l = response_prefix"
    using a f x y b d
    by (simp add: on_command_received_def get_def simulate_click_def invalid_json_def
        unknown_action_def Let_def)
qed

text \<open>The amended claim C6 on a broken command, an unknown action and a screenshot.\<close>

theorem dispatcher_responds_witness:
  \<open>on_command_received example_engine broken_command
     = Inr \<lparr>printed = [(''MCP_RESPONSE:'',
                Literal ''{"type":"error","message":"Invalid JSON command"}'')],
             input_events = []\<rparr> \<and>
   on_command_received example_engine quit_command
     = Inr \<lparr>printed = [(''MCP_RESPONSE:'',
                Literal ''{"type":"error","message":"Unknown command action"}'')],
             input_events = []\<rparr> \<and>
   (\<exists>out l. on_command_received example_engine bmp_command = Inr out \<and>
      printed out = [l] \<and> fst l = ''MCP_RESPONSE:'')\<close>
proof -
  have p: "json_parse example_engine broken_command = None"
    "json_parse example_engine quit_command = Some (VDictionary [(''action'', VString ''quit'')])"
    "json_parse example_engine bmp_command
       = Some (VDictionary [(''action'', VString ''screenshot''), (''format'', VString ''bmp'')])"
    by (simp_all add: example_engine_def number_command_def quit_command_def
        screenshot_command_def bmp_command_def click_command_def broken_command_def)
  from dispatcher_responds [of example_engine broken_command] p(1)
  have \<open>on_command_received example_engine broken_command
     = Inr \<lparr>printed = [(''MCP_RESPONSE:'',
                Literal ''{"type":"error","message":"Invalid JSON command"}'')],
             input_events = []\<rparr>\<close>
    by (simp add: response_prefix_def)
  moreover from dispatcher_responds [of example_engine quit_command
      "[(''action'', VString ''quit'')]"] p(2)
  have \<open>on_command_received example_engine quit_command
     = Inr \<lparr>printed = [(''MCP_RESPONSE:'',
                Literal ''{"type":"error","message":"Unknown command action"}'')],
             input_events = []\<rparr>\<close>
    by (simp add: response_prefix_def)
  moreover from dispatcher_responds [of example_engine bmp_command
      "[(''action'', VString ''screenshot''), (''format'', VString ''bmp'')]"] p(3)
  have "\<exists>out l. on_command_received example_engine bmp_command = Inr out \<and>
      printed out = [l] \<and> fst l = ''MCP_RESPONSE:''"
    by (simp add: response_prefix_def absent_or_string_def absent_or_int_def)
  ultimately show ?thesis by simp
qed



text \<open>
  Claim C8: for every format other than \<^verbatim>\<open>jpg\<close> and \<^verbatim>\<open>jpeg\<close>, whenever the viewport has an
  image, the image is encoded as PNG: the response carries the base64 text of the PNG
  buffer and repeats the requested format string. No format is rejected; the only failure
  left is an empty PNG buffer.
\<close>

theorem unknown_format_is_png:
  assumes "format \<noteq> ''jpg''" and "format \<noteq> ''jpeg''" and "viewport e = Some (Some img)"
  shows "capture_screenshot e format =
     (if save_png_to_buffer img = [] then
        ([(response_prefix, Stringify (screenshot_error ''Failed to encode image''))],
         screenshot_error ''Failed to encode image'')
      else
        (let result = VDictionary
           [(''type'', VString ''screenshot''),
            (''success'', VBool True),
            (''data'', VString (raw_to_base64 (save_png_to_buffer img))),
            (''size'', VInt (int (length (save_png_to_buffer img)))),
            (''width'', VInt (get_width img)),
            (''height'', VInt (get_height img)),
            (''format'', VString format)]
         in ([(response_prefix, Stringify result)], result)))"
  using assms by (simp add: capture_screenshot_def Let_def)

text \<open>Claim C8 for the format \<^verbatim>\<open>bmp\<close>.\<close>

theorem unknown_format_is_png_witness:
  \<open>''bmp'' \<noteq> ''jpg'' \<and> ''bmp'' \<noteq> ''jpeg'' \<and>
   viewport example_engine = Some (Some example_image) \<and>
   (\<exists>l. fst (capture_screenshot example_engine ''bmp'') = [l] \<and>
      response_field l ''data'' = Some (VString ''iVBORw=='') \<and>
      response_field l ''format'' = Some (VString ''bmp''))\<close>
proof -
  have v: "viewport example_engine = Some (Some example_image)"
    by (simp add: example_engine_def)
  from unknown_format_is_png [OF _ _ v, of "''bmp''"] v show ?thesis
    by (simp add: example_image_def response_field_def sextet_def base64_alphabet_def Let_def)
qed

section \<open>The claim about the configuration writers\<close>




end
